theory Spec2Isabelle
  imports Main "HOL-Library.Multiset"
begin

section \<open>The graph flow pattern (taskflow/patterns/graph\_flow.py)\<close>

text \<open>
  An item of a graph flow is a task or a nested flow. The pattern reads three attributes
  of it: its name and the two sets of symbol names \<open>requires\<close> and \<open>provides\<close>.
  Python compares items by identity; here two items are the same when their attributes
  are. A Python set is written as the list of its elements in iteration order.
\<close>

record item =
  name :: string
  requires :: "string list"
  provides :: "string list"

text \<open>
  The networkx \<open>DiGraph\<close> behind a flow: its nodes in \<open>nodes_iter\<close> order and its
  edges. \<open>add_node\<close> and \<open>add_edge\<close> leave a node or edge that is already there alone,
  and \<open>add_edge\<close> adds missing end points first, as networkx does.
\<close>

record digraph =
  dnodes :: "item list"
  dedges :: "(item \<times> item) list"

definition empty_digraph :: digraph where
  "empty_digraph = \<lparr>dnodes = [], dedges = []\<rparr>"

definition has_node :: "digraph \<Rightarrow> item \<Rightarrow> bool" where
  "has_node g i = (i \<in> set (dnodes g))"

definition has_edge :: "digraph \<Rightarrow> item \<Rightarrow> item \<Rightarrow> bool" where
  "has_edge g u v = ((u, v) \<in> set (dedges g))"

definition add_node :: "digraph \<Rightarrow> item \<Rightarrow> digraph" where
  "add_node g i = (if i \<in> set (dnodes g) then g else g\<lparr>dnodes := dnodes g @ [i]\<rparr>)"

definition add_edge :: "digraph \<Rightarrow> item \<Rightarrow> item \<Rightarrow> digraph" where
  "add_edge g u v =
     (let g1 = add_node (add_node g u) v
      in if (u, v) \<in> set (dedges g1) then g1 else g1\<lparr>dedges := dedges g1 @ [(u, v)]\<rparr>)"

text \<open>\<open>networkx.algorithms.dag.is_directed_acyclic_graph\<close>: no directed cycle, a
  self-loop included.\<close>

definition is_directed_acyclic_graph :: "digraph \<Rightarrow> bool" where
  "is_directed_acyclic_graph g = acyclic (set (dedges g))"

datatype error = ValueError | DependencyFailure

text \<open>
  A flow object holds its graph in the attribute \<open>_graph\<close>. A method of the flow is a
  function from the flow before the call to the flow after it, paired with the exception
  the call raised, if any.
\<close>

record flow =
  flow_name :: string
  graph :: digraph

definition new_flow :: "string \<Rightarrow> flow" where
  "new_flow n = \<lparr>flow_name = n, graph = empty_digraph\<rparr>"

definition validate :: "digraph \<Rightarrow> error option" where
  "validate g = (if \<not> is_directed_acyclic_graph g then Some DependencyFailure else None)"

definition swap :: "flow \<Rightarrow> digraph \<Rightarrow> flow \<times> error option" where
  "swap f replacement_graph =
     (case validate replacement_graph of
        Some e \<Rightarrow> (f, Some e)
      | None \<Rightarrow> (f\<lparr>graph := replacement_graph\<rparr>, None))"

definition link :: "flow \<Rightarrow> item \<Rightarrow> item \<Rightarrow> flow \<times> error option" where
  "link f u v =
     (if \<not> has_node (graph f) u then (f, Some ValueError)
      else if \<not> has_node (graph f) v then (f, Some ValueError)
      else if has_edge (graph f) u v then (f, None)
      else swap f (add_edge (graph f) u v))"

text \<open>
  \<open>requirements\<close> is a \<open>defaultdict(list)\<close>: a key is present exactly when its list
  is not empty, so it is a total function with the empty list as default.
  \<open>provided\<close> is a dict from symbol to the item that provides it.
\<close>

type_synonym requirements = "string \<Rightarrow> item list"
type_synonym provided = "string \<rightharpoonup> item"

definition update_requirements :: "requirements \<Rightarrow> item \<Rightarrow> requirements" where
  "update_requirements reqs node =
     fold (\<lambda>value r. r(value := r value @ [node])) (requires node) reqs"

definition scan_node :: "item \<Rightarrow> requirements \<times> provided \<Rightarrow> requirements \<times> provided" where
  "scan_node node rp =
     (update_requirements (fst rp) node,
      fold (\<lambda>value p. p(value \<mapsto> node)) (provides node) (snd rp))"

text \<open>The loop \<open>for value in item.provides\<close> that raises on a duplicate producer.\<close>

fun check_provides :: "item \<Rightarrow> string list \<Rightarrow> provided \<Rightarrow> error + provided" where
  "check_provides it [] prov = Inr prov"
| "check_provides it (value # values) prov =
     (if prov value \<noteq> None then Inl DependencyFailure
      else check_provides it values (prov(value \<mapsto> it)))"

definition link_requires :: "item \<Rightarrow> provided \<Rightarrow> digraph \<Rightarrow> digraph" where
  "link_requires it prov g =
     fold (\<lambda>value g'. case prov value of Some p \<Rightarrow> add_edge g' p it | None \<Rightarrow> g')
       (requires it) g"

definition link_provides :: "item \<Rightarrow> requirements \<Rightarrow> digraph \<Rightarrow> digraph" where
  "link_provides it reqs g =
     fold (\<lambda>value g'. fold (\<lambda>node g''. add_edge g'' it node) (reqs value) g')
       (provides it) g"

text \<open>The loop \<open>for item in items\<close> of \<open>Flow.add\<close> over the temporary graph.\<close>

fun add_items :: "item list \<Rightarrow> requirements \<Rightarrow> provided \<Rightarrow> digraph
    \<Rightarrow> error + digraph" where
  "add_items [] reqs prov tmp_graph = Inr tmp_graph"
| "add_items (it # items) reqs prov tmp_graph =
     (let g1 = add_node tmp_graph it;
          reqs1 = update_requirements reqs it
      in case check_provides it (provides it) prov of
           Inl e \<Rightarrow> Inl e
         | Inr prov1 \<Rightarrow>
             add_items items reqs1 prov1
               (link_provides it reqs1 (link_requires it prov1 g1)))"

definition add :: "flow \<Rightarrow> item list \<Rightarrow> flow \<times> error option" where
  "add f items0 =
     (let items = filter (\<lambda>i. \<not> has_node (graph f) i) items0
      in if items = [] then (f, None)
         else
           let rp = fold scan_node (dnodes (graph f)) (\<lambda>_. [], Map.empty)
           in case add_items items (fst rp) (snd rp) (graph f) of
                Inl e \<Rightarrow> (f, Some e)
              | Inr tmp_graph \<Rightarrow> swap f tmp_graph)"

definition flow_provides :: "flow \<Rightarrow> string set" where
  "flow_provides f = fold (\<lambda>subflow acc. acc \<union> set (provides subflow)) (dnodes (graph f)) {}"

definition flow_requires :: "flow \<Rightarrow> string set" where
  "flow_requires f =
     fold (\<lambda>subflow acc. acc \<union> set (requires subflow)) (dnodes (graph f)) {} - flow_provides f"

subsection \<open>What the properties are stated with\<close>

text \<open>The flows that a program can build: a new flow, then any calls of \<open>link\<close> and
  \<open>add\<close>, whether they return or raise.\<close>

inductive built :: "flow \<Rightarrow> bool" where
  built_new: "built (new_flow n)"
| built_link: "built f \<Longrightarrow> built (fst (link f u v))"
| built_add: "built f \<Longrightarrow> built (fst (add f items))"

text \<open>Every symbol has at most one producer among the nodes.\<close>

definition unique_providers :: "digraph \<Rightarrow> bool" where
  "unique_providers g =
     (\<forall>p \<in> set (dnodes g). \<forall>q \<in> set (dnodes g). \<forall>s.
        s \<in> set (provides p) \<and> s \<in> set (provides q) \<longrightarrow> p = q)"

text \<open>Every producer of a symbol has an edge to every node that requires the symbol.\<close>

definition dependencies_linked :: "digraph \<Rightarrow> bool" where
  "dependencies_linked g =
     (\<forall>p \<in> set (dnodes g). \<forall>c \<in> set (dnodes g). \<forall>s.
        s \<in> set (provides p) \<and> s \<in> set (requires c) \<longrightarrow> has_edge g p c)"

definition flow_invariant :: "flow \<Rightarrow> bool" where
  "flow_invariant f =
     (is_directed_acyclic_graph (graph f) \<and> unique_providers (graph f) \<and>
      dependencies_linked (graph f))"

text \<open>The two dicts of \<open>add\<close> describe the nodes of the temporary graph.\<close>

definition tracks :: "requirements \<Rightarrow> provided \<Rightarrow> digraph \<Rightarrow> bool" where
  "tracks reqs prov g =
     ((\<forall>s p. prov s = Some p \<longleftrightarrow> p \<in> set (dnodes g) \<and> s \<in> set (provides p)) \<and>
      (\<forall>s. set (reqs s) = {c \<in> set (dnodes g). s \<in> set (requires c)}))"

text \<open>
  Some item to be added provides a symbol that a node of the graph, or an item before it
  in the same call, provides. The items to be added are the arguments of \<open>add\<close> that
  are not nodes yet: \<open>add\<close> drops the others in its first line.
\<close>

definition duplicate_producer :: "digraph \<Rightarrow> item list \<Rightarrow> bool" where
  "duplicate_producer g items =
     (\<exists>i < length items. \<exists>s \<in> set (provides (items ! i)).
        (\<exists>n \<in> set (dnodes g). s \<in> set (provides n)) \<or>
        (\<exists>j < i. s \<in> set (provides (items ! j))))"

text \<open>A small flow for the concrete instances: \<open>a\<close> produces what \<open>b\<close> needs, and
  \<open>c\<close> produces the same symbol as \<open>a\<close>.\<close>

definition task_a :: item where
  "task_a = \<lparr>name = ''a'', requires = [''x''], provides = [''y'']\<rparr>"

definition task_b :: item where
  "task_b = \<lparr>name = ''b'', requires = [''y''], provides = [''z'']\<rparr>"

definition task_c :: item where
  "task_c = \<lparr>name = ''c'', requires = [], provides = [''y'']\<rparr>"

definition flow_ab :: flow where
  "flow_ab = fst (add (new_flow ''f'') [task_a, task_b])"

section \<open>Properties of the graph flow pattern\<close>

lemma add_node_nodes [simp]: "set (dnodes (add_node g i)) = insert i (set (dnodes g))"
  by (auto simp: add_node_def)

lemma add_node_edges [simp]: "dedges (add_node g i) = dedges g"
  by (simp add: add_node_def)

lemma add_edge_nodes [simp]: "set (dnodes (add_edge g u v)) = insert u (insert v (set (dnodes g)))"
  by (auto simp: add_edge_def Let_def)

lemma add_edge_edges [simp]: "set (dedges (add_edge g u v)) = insert (u, v) (set (dedges g))"
  by (auto simp: add_edge_def Let_def)

lemma update_requirements_set:
  "set (update_requirements reqs node s) =
     set (reqs s) \<union> (if s \<in> set (requires node) then {node} else {})"
proof -
  have "set (fold (\<lambda>value r. r(value := r value @ [node])) vs reqs s) =
          set (reqs s) \<union> (if s \<in> set vs then {node} else {})" for vs
    by (induction vs arbitrary: reqs) auto
  then show ?thesis by (simp add: update_requirements_def)
qed

lemma stamp_provides:
  "fold (\<lambda>value p. p(value \<mapsto> node)) vs prov s =
     (if s \<in> set vs then Some node else prov s)"
  by (induction vs arbitrary: prov) auto

lemma scan_nodes_requirements:
  "set (fst (fold scan_node ns rp) s) =
     set (fst rp s) \<union> {c \<in> set ns. s \<in> set (requires c)}"
  by (induction ns arbitrary: rp) (auto simp: scan_node_def update_requirements_set)

lemma scan_nodes_provided_sound:
  "snd (fold scan_node ns rp) s = Some p \<Longrightarrow>
     (p \<in> set ns \<and> s \<in> set (provides p)) \<or> snd rp s = Some p"
  by (induction ns arbitrary: rp) (fastforce simp: scan_node_def stamp_provides split: if_splits)+

lemma scan_nodes_provided_complete:
  "n \<in> set ns \<Longrightarrow> s \<in> set (provides n) \<Longrightarrow>
     \<exists>p. snd (fold scan_node ns rp) s = Some p \<and> p \<in> set ns \<and> s \<in> set (provides p)"
proof (induction ns arbitrary: rp n)
  case Nil
  then show ?case by simp
next
  case (Cons a ns)
  show ?case
  proof (cases "\<exists>m \<in> set ns. s \<in> set (provides m)")
    case True
    then obtain m where "m \<in> set ns" "s \<in> set (provides m)" by blast
    from Cons.IH [OF this, of "scan_node a rp"] show ?thesis by auto
  next
    case False
    with Cons.prems have a: "n = a" by auto
    have "snd (fold scan_node ns (scan_node a rp)) s = Some a"
    proof -
      have start: "snd (scan_node a rp) s = Some a"
        using Cons.prems a by (simp add: scan_node_def stamp_provides)
      have keep: "snd (fold scan_node ms rp') s = snd rp' s"
        if "\<forall>m \<in> set ms. s \<notin> set (provides m)" for ms rp'
        using that by (induction ms arbitrary: rp') (auto simp: scan_node_def stamp_provides)
      from keep [of ns "scan_node a rp"] False start show ?thesis by auto
    qed
    with Cons.prems a show ?thesis by auto
  qed
qed

lemma check_provides_Inr:
  "check_provides it vs prov = Inr prov1 \<Longrightarrow>
     (\<forall>v \<in> set vs. prov v = None) \<and>
     prov1 = (\<lambda>s. if s \<in> set vs then Some it else prov s)"
proof (induction vs arbitrary: prov)
  case Nil
  then show ?case by simp
next
  case (Cons v vs)
  from Cons.prems have none: "prov v = None"
    and rest: "check_provides it vs (prov(v \<mapsto> it)) = Inr prov1"
    by (auto split: if_splits)
  from Cons.IH [OF rest] have
    a: "\<forall>w \<in> set vs. (prov(v \<mapsto> it)) w = None" and
    b: "prov1 = (\<lambda>s. if s \<in> set vs then Some it else (prov(v \<mapsto> it)) s)" by auto
  from a none have "\<forall>w \<in> set (v # vs). prov w = None"
    by (auto split: if_splits)
  moreover from b have "prov1 = (\<lambda>s. if s \<in> set (v # vs) then Some it else prov s)"
    by auto
  ultimately show ?case by blast
qed

lemma check_provides_Inl:
  "check_provides it vs prov = Inl e \<Longrightarrow> e = DependencyFailure"
  by (induction vs arbitrary: prov) (auto split: if_splits)

lemma link_requires_nodes:
  "set (dnodes (link_requires it prov g)) =
     set (dnodes g) \<union> (\<Union>s \<in> set (requires it). case prov s of Some p \<Rightarrow> {p, it} | None \<Rightarrow> {})"
proof -
  have "set (dnodes (fold (\<lambda>value g'. case prov value of Some p \<Rightarrow> add_edge g' p it | None \<Rightarrow> g') vs g)) =
     set (dnodes g) \<union> (\<Union>s \<in> set vs. case prov s of Some p \<Rightarrow> {p, it} | None \<Rightarrow> {})" for vs
    by (induction vs arbitrary: g) (auto split: option.splits)
  then show ?thesis by (simp add: link_requires_def)
qed

lemma link_requires_edges:
  "set (dedges (link_requires it prov g)) =
     set (dedges g) \<union> {(p, it) | p s. s \<in> set (requires it) \<and> prov s = Some p}"
proof -
  have "set (dedges (fold (\<lambda>value g'. case prov value of Some p \<Rightarrow> add_edge g' p it | None \<Rightarrow> g') vs g)) =
     set (dedges g) \<union> {(p, it) | p s. s \<in> set vs \<and> prov s = Some p}" for vs
    by (induction vs arbitrary: g) (auto split: option.splits)
  then show ?thesis by (simp add: link_requires_def)
qed

lemma fold_add_edge_from_nodes:
  "set (dnodes (fold (\<lambda>node g''. add_edge g'' it node) cs g)) =
     set (dnodes g) \<union> (if cs = [] then {} else insert it (set cs))"
  by (induction cs arbitrary: g) auto

lemma fold_add_edge_from_edges:
  "set (dedges (fold (\<lambda>node g''. add_edge g'' it node) cs g)) =
     set (dedges g) \<union> {(it, c) | c. c \<in> set cs}"
  by (induction cs arbitrary: g) auto

lemma link_provides_nodes:
  "set (dnodes (link_provides it reqs g)) =
     set (dnodes g) \<union> (\<Union>s \<in> set (provides it). if reqs s = [] then {} else insert it (set (reqs s)))"
proof -
  have "set (dnodes (fold (\<lambda>value g'. fold (\<lambda>node g''. add_edge g'' it node) (reqs value) g') vs g)) =
     set (dnodes g) \<union> (\<Union>s \<in> set vs. if reqs s = [] then {} else insert it (set (reqs s)))" for vs
    by (induction vs arbitrary: g) (auto simp: fold_add_edge_from_nodes split: if_splits)
  then show ?thesis by (simp add: link_provides_def)
qed

lemma link_provides_edges:
  "set (dedges (link_provides it reqs g)) =
     set (dedges g) \<union> {(it, c) | c s. s \<in> set (provides it) \<and> c \<in> set (reqs s)}"
proof -
  have "set (dedges (fold (\<lambda>value g'. fold (\<lambda>node g''. add_edge g'' it node) (reqs value) g') vs g)) =
     set (dedges g) \<union> {(it, c) | c s. s \<in> set vs \<and> c \<in> set (reqs s)}" for vs
    by (induction vs arbitrary: g) (auto simp: fold_add_edge_from_edges)
  then show ?thesis by (simp add: link_provides_def)
qed


lemma tracks_unique: "tracks reqs prov g \<Longrightarrow> unique_providers g"
  unfolding tracks_def unique_providers_def by (metis option.inject)

lemma add_item_step:
  assumes tr: "tracks reqs prov g" and dl: "dependencies_linked g"
    and chk: "check_provides it (provides it) prov = Inr prov1"
  defines "reqs1 \<equiv> update_requirements reqs it"
  defines "g3 \<equiv> link_provides it reqs1 (link_requires it prov1 (add_node g it))"
  shows "tracks reqs1 prov1 g3 \<and> dependencies_linked g3 \<and>
         set (dnodes g3) = insert it (set (dnodes g)) \<and> set (dedges g) \<subseteq> set (dedges g3)"
proof -
  from check_provides_Inr [OF chk] have
    fresh: "\<forall>v \<in> set (provides it). prov v = None" and
    prov1: "\<And>s. prov1 s = (if s \<in> set (provides it) then Some it else prov s)" by auto
  from tr have provI: "\<And>s p. prov s = Some p \<longleftrightarrow> p \<in> set (dnodes g) \<and> s \<in> set (provides p)"
    and reqsI: "\<And>s. set (reqs s) = {c \<in> set (dnodes g). s \<in> set (requires c)}"
    by (auto simp: tracks_def)
  have reqs1: "\<And>s. set (reqs1 s) = {c \<in> insert it (set (dnodes g)). s \<in> set (requires c)}"
    by (auto simp: reqs1_def update_requirements_set reqsI)
  have prov1I: "\<And>s p. prov1 s = Some p \<longleftrightarrow> p \<in> insert it (set (dnodes g)) \<and> s \<in> set (provides p)"
  proof -
    fix s p
    show "prov1 s = Some p \<longleftrightarrow> p \<in> insert it (set (dnodes g)) \<and> s \<in> set (provides p)"
    proof (cases "s \<in> set (provides it)")
      case True
      with fresh have "prov s = None" by blast
      then have "\<not> (\<exists>q \<in> set (dnodes g). s \<in> set (provides q))"
        using provI [of s] by auto
      with True show ?thesis by (auto simp: prov1)
    next
      case False
      then show ?thesis by (auto simp: prov1 provI)
    qed
  qed
  have nodes: "set (dnodes g3) = insert it (set (dnodes g))"
  proof -
    have a: "set (dnodes (link_requires it prov1 (add_node g it))) = insert it (set (dnodes g))"
      by (auto simp: link_requires_nodes prov1I split: option.splits)
    have b: "(\<Union>s \<in> set (provides it). if reqs1 s = [] then {} else insert it (set (reqs1 s)))
               \<subseteq> insert it (set (dnodes g))"
      by (auto simp: reqs1 split: if_splits)
    show ?thesis unfolding g3_def link_provides_nodes a using b by blast
  qed
  have edges: "set (dedges g3) = set (dedges g)
      \<union> {(p, it) | p s. s \<in> set (requires it) \<and> prov1 s = Some p}
      \<union> {(it, c) | c s. s \<in> set (provides it) \<and> c \<in> set (reqs1 s)}"
    by (simp add: g3_def link_provides_edges link_requires_edges)
  have "tracks reqs1 prov1 g3"
    unfolding tracks_def nodes using prov1I reqs1 by blast
  moreover have "dependencies_linked g3"
    unfolding dependencies_linked_def has_edge_def nodes
  proof (intro ballI allI impI)
    fix p c s
    assume p: "p \<in> insert it (set (dnodes g))" and c: "c \<in> insert it (set (dnodes g))"
      and s: "s \<in> set (provides p) \<and> s \<in> set (requires c)"
    show "(p, c) \<in> set (dedges g3)"
    proof (cases "c = it")
      case True
      from p s have "prov1 s = Some p" by (simp add: prov1I)
      with s True show ?thesis unfolding edges by blast
    next
      case c_old: False
      show ?thesis
      proof (cases "p = it")
        case True
        from c s have "c \<in> set (reqs1 s)" by (simp add: reqs1)
        with s True show ?thesis unfolding edges by blast
      next
        case False
        with c_old p c s dl have "(p, c) \<in> set (dedges g)"
          by (auto simp: dependencies_linked_def has_edge_def)
        then show ?thesis unfolding edges by blast
      qed
    qed
  qed
  moreover have "set (dedges g) \<subseteq> set (dedges g3)" unfolding edges by blast
  ultimately show ?thesis using nodes by blast
qed

lemma add_items_Inr:
  "add_items items reqs prov g = Inr tmp \<Longrightarrow> tracks reqs prov g \<Longrightarrow> dependencies_linked g \<Longrightarrow>
     unique_providers tmp \<and> dependencies_linked tmp \<and>
     set (dnodes tmp) = set (dnodes g) \<union> set items \<and> set (dedges g) \<subseteq> set (dedges tmp)"
proof (induction items arbitrary: reqs prov g)
  case Nil
  then show ?case by (auto dest: tracks_unique)
next
  case (Cons it items)
  from Cons.prems(1) obtain prov1 where
    chk: "check_provides it (provides it) prov = Inr prov1" and
    rest: "add_items items (update_requirements reqs it) prov1
             (link_provides it (update_requirements reqs it)
                (link_requires it prov1 (add_node g it))) = Inr tmp"
    by (auto simp: Let_def split: sum.splits)
  note step = add_item_step [OF Cons.prems(2) Cons.prems(3) chk]
  from Cons.IH [OF rest] step show ?case by auto
qed

lemma add_items_Inl: "add_items items reqs prov g = Inl e \<Longrightarrow> e = DependencyFailure"
  by (induction items arbitrary: reqs prov g)
     (auto simp: Let_def split: sum.splits dest: check_provides_Inl)

lemma add_items_fresh:
  "add_items items reqs prov g = Inr tmp \<Longrightarrow>
     \<forall>i \<in> set items. \<forall>s \<in> set (provides i). prov s = None"
proof (induction items arbitrary: reqs prov g)
  case Nil
  then show ?case by simp
next
  case (Cons it items)
  from Cons.prems obtain prov1 where
    chk: "check_provides it (provides it) prov = Inr prov1" and
    rest: "add_items items (update_requirements reqs it) prov1
             (link_provides it (update_requirements reqs it)
                (link_requires it prov1 (add_node g it))) = Inr tmp"
    by (auto simp: Let_def split: sum.splits)
  from check_provides_Inr [OF chk] have
    fresh: "\<forall>v \<in> set (provides it). prov v = None" and
    prov1: "\<And>s. prov1 s = (if s \<in> set (provides it) then Some it else prov s)" by auto
  from Cons.IH [OF rest] have "\<forall>i \<in> set items. \<forall>s \<in> set (provides i). prov1 s = None" .
  then have "\<forall>i \<in> set items. \<forall>s \<in> set (provides i). prov s = None"
    by (auto simp: prov1 split: if_splits)
  with fresh show ?case by simp
qed

lemma add_items_pairwise:
  "add_items items reqs prov g = Inr tmp \<Longrightarrow> j < i \<Longrightarrow> i < length items \<Longrightarrow>
     set (provides (items ! j)) \<inter> set (provides (items ! i)) = {}"
proof (induction items arbitrary: reqs prov g i j)
  case Nil
  then show ?case by simp
next
  case (Cons it items)
  from Cons.prems(1) obtain prov1 where
    chk: "check_provides it (provides it) prov = Inr prov1" and
    rest: "add_items items (update_requirements reqs it) prov1
             (link_provides it (update_requirements reqs it)
                (link_requires it prov1 (add_node g it))) = Inr tmp"
    by (auto simp: Let_def split: sum.splits)
  from check_provides_Inr [OF chk] have
    prov1: "\<And>s. prov1 s = (if s \<in> set (provides it) then Some it else prov s)" by auto
  from Cons.prems obtain i' where i: "i = Suc i'" "i' < length items"
    by (cases i) auto
  show ?case
  proof (cases j)
    case 0
    from add_items_fresh [OF rest] i have "\<forall>s \<in> set (provides (items ! i')). prov1 s = None"
      by auto
    then have "\<forall>s \<in> set (provides (items ! i')). s \<notin> set (provides it)"
      by (auto simp: prov1 split: if_splits)
    with 0 i show ?thesis by auto
  next
    case (Suc j')
    with Cons.prems i have "j' < i'" by simp
    from Cons.IH [OF rest this i(2)] Suc i show ?thesis by simp
  qed
qed


lemma scan_nodes_tracks:
  assumes "unique_providers g"
  defines "rp \<equiv> fold scan_node (dnodes g) (\<lambda>_. [], Map.empty)"
  shows "tracks (fst rp) (snd rp) g"
proof -
  have req: "\<And>s. set (fst rp s) = {c \<in> set (dnodes g). s \<in> set (requires c)}"
    by (simp add: rp_def scan_nodes_requirements)
  have prov: "snd rp s = Some p \<longleftrightarrow> p \<in> set (dnodes g) \<and> s \<in> set (provides p)" for s p
  proof
    assume "snd rp s = Some p"
    from scan_nodes_provided_sound [OF this [unfolded rp_def]]
    show "p \<in> set (dnodes g) \<and> s \<in> set (provides p)" by simp
  next
    assume p: "p \<in> set (dnodes g) \<and> s \<in> set (provides p)"
    then obtain q where q: "snd rp s = Some q" "q \<in> set (dnodes g)" "s \<in> set (provides q)"
      using scan_nodes_provided_complete [of p "dnodes g" s "(\<lambda>_. [], Map.empty)"]
      by (auto simp: rp_def)
    with p assms(1) have "p = q" by (auto simp: unique_providers_def)
    with q show "snd rp s = Some p" by simp
  qed
  show ?thesis unfolding tracks_def using req prov by blast
qed

lemma swap_cases:
  "swap f g = (f', r) \<Longrightarrow>
     (r = None \<and> f' = f\<lparr>graph := g\<rparr> \<and> is_directed_acyclic_graph g) \<or>
     (r = Some DependencyFailure \<and> f' = f \<and> \<not> is_directed_acyclic_graph g)"
  by (auto simp: swap_def validate_def split: if_splits)

lemma link_invariant: "flow_invariant f \<Longrightarrow> flow_invariant (fst (link f u v))"
  by (auto simp: link_def swap_def validate_def flow_invariant_def unique_providers_def
      dependencies_linked_def has_node_def has_edge_def insert_absorb)

lemma add_invariant:
  assumes inv: "flow_invariant f"
  shows "flow_invariant (fst (add f items0))"
proof -
  define items where "items = filter (\<lambda>i. \<not> has_node (graph f) i) items0"
  define rp where "rp = fold scan_node (dnodes (graph f)) (\<lambda>_. [], Map.empty)"
  show ?thesis
  proof (cases "add_items items (fst rp) (snd rp) (graph f)")
    case (Inl e)
    then show ?thesis using inv by (simp add: add_def Let_def items_def rp_def)
  next
    case (Inr tmp)
    from inv have tr: "tracks (fst rp) (snd rp) (graph f)"
      unfolding rp_def by (intro scan_nodes_tracks) (simp add: flow_invariant_def)
    from inv have dl: "dependencies_linked (graph f)" by (simp add: flow_invariant_def)
    from add_items_Inr [OF Inr tr dl] have tmp: "unique_providers tmp" "dependencies_linked tmp"
      by auto
    have "fst (add f items0) = f \<or> fst (add f items0) = fst (swap f tmp)"
      using Inr by (simp add: add_def Let_def items_def rp_def)
    moreover have "flow_invariant (fst (swap f tmp))"
      using tmp inv by (auto simp: swap_def validate_def flow_invariant_def)
    ultimately show ?thesis using inv by auto
  qed
qed

lemma built_invariant: "built f \<Longrightarrow> flow_invariant f"
proof (induction rule: built.induct)
  case (built_new n)
  show ?case
    by (simp add: flow_invariant_def new_flow_def empty_digraph_def
        is_directed_acyclic_graph_def unique_providers_def dependencies_linked_def
        acyclic_def)
next
  case (built_link f u v)
  then show ?case by (simp add: link_invariant)
next
  case (built_add f items)
  then show ?case by (simp add: add_invariant)
qed

lemma add_raises_on_duplicate:
  assumes dup: "duplicate_producer (graph f) (filter (\<lambda>i. \<not> has_node (graph f) i) items0)"
  shows "add f items0 = (f, Some DependencyFailure)"
proof -
  define items where "items = filter (\<lambda>i. \<not> has_node (graph f) i) items0"
  define rp where "rp = fold scan_node (dnodes (graph f)) (\<lambda>_. [], Map.empty)"
  from dup obtain i s where i: "i < length items" and s: "s \<in> set (provides (items ! i))"
    and off: "(\<exists>n \<in> set (dnodes (graph f)). s \<in> set (provides n)) \<or>
              (\<exists>j < i. s \<in> set (provides (items ! j)))"
    unfolding duplicate_producer_def items_def by blast
  from i have ne: "items \<noteq> []" by auto
  show ?thesis
  proof (cases "add_items items (fst rp) (snd rp) (graph f)")
    case (Inl e)
    with add_items_Inl [OF Inl] ne show ?thesis
      by (simp add: add_def Let_def items_def rp_def)
  next
    case (Inr tmp)
    from add_items_fresh [OF Inr] i s have none: "snd rp s = None"
      using nth_mem by blast
    from off show ?thesis
    proof
      assume "\<exists>n \<in> set (dnodes (graph f)). s \<in> set (provides n)"
      then obtain n where "n \<in> set (dnodes (graph f))" "s \<in> set (provides n)" by blast
      from scan_nodes_provided_complete [OF this, of "(\<lambda>_. [], Map.empty)"] none
      show ?thesis by (simp add: rp_def)
    next
      assume "\<exists>j < i. s \<in> set (provides (items ! j))"
      then obtain j where "j < i" "s \<in> set (provides (items ! j))" by blast
      with add_items_pairwise [OF Inr \<open>j < i\<close> i] s show ?thesis by blast
    qed
  qed
qed

lemma link_atomic: "snd (link f u v) \<noteq> None \<Longrightarrow> fst (link f u v) = f"
  by (auto simp: link_def swap_def validate_def split: if_splits)

lemma add_atomic: "snd (add f items) \<noteq> None \<Longrightarrow> fst (add f items) = f"
  by (auto simp: add_def Let_def swap_def validate_def split: if_splits sum.splits)

subsection \<open>The concrete flow\<close>

lemma flow_ab_built: "built flow_ab"
  unfolding flow_ab_def by (intro built.intros)

lemma flow_ab_value:
  "flow_ab = \<lparr>flow_name = ''f'',
              graph = \<lparr>dnodes = [task_a, task_b], dedges = [(task_a, task_b)]\<rparr>\<rparr>"
  unfolding flow_ab_def task_a_def task_b_def by code_simp

lemma flow_ab_link_back: "link flow_ab task_b task_a = (flow_ab, Some DependencyFailure)"
  unfolding flow_ab_def task_a_def task_b_def by code_simp

lemma flow_ab_add_c: "add flow_ab [task_c] = (flow_ab, Some DependencyFailure)"
  unfolding flow_ab_def task_a_def task_b_def task_c_def by code_simp

lemma flow_ab_duplicate:
  "duplicate_producer (graph flow_ab) (filter (\<lambda>i. \<not> has_node (graph flow_ab) i) [task_c])"
  unfolding duplicate_producer_def flow_ab_value
  by (simp add: has_node_def task_a_def task_b_def task_c_def)

subsection \<open>The claims about the graph flow pattern\<close>

text \<open>
  Claim C7. \<open>link\<close> and \<open>add\<close> change a temporary copy of the graph and store it only
  after it has been validated. So the graph of every flow built by calls of \<open>link\<close> and
  \<open>add\<close> is acyclic, and a call of \<open>link\<close> or \<open>add\<close> that raises
  \<open>DependencyFailure\<close> leaves the flow as it was before the call.
\<close>

theorem link_add_copy_validate_swap:
  "(built f \<longrightarrow> is_directed_acyclic_graph (graph f)) \<and>
   (snd (link f u v) = Some DependencyFailure \<longrightarrow> fst (link f u v) = f) \<and>
   (snd (add f items) = Some DependencyFailure \<longrightarrow> fst (add f items) = f)"
  using built_invariant [of f] link_atomic [of f u v] add_atomic [of f items]
  by (simp add: flow_invariant_def)

theorem link_add_copy_validate_swap_witness:
  "built flow_ab \<and> is_directed_acyclic_graph (graph flow_ab) \<and>
   snd (link flow_ab task_b task_a) = Some DependencyFailure \<and>
   fst (link flow_ab task_b task_a) = flow_ab \<and>
   snd (add flow_ab [task_c]) = Some DependencyFailure \<and>
   fst (add flow_ab [task_c]) = flow_ab"
  using link_add_copy_validate_swap [of flow_ab task_b task_a "[task_c]"]
    flow_ab_built flow_ab_link_back flow_ab_add_c
  by simp

text \<open>
  Claim C8. \<open>add\<close> raises \<open>DependencyFailure\<close> whenever an item being added provides a
  symbol that a node already in the flow, or an earlier item of the same call, provides.
  So in every flow built by \<open>link\<close> and \<open>add\<close> each symbol has at most one producer,
  and every node that provides a symbol has an edge to every node that requires it.
\<close>

theorem add_duplicate_providers_and_dependency_edges:
  "(duplicate_producer (graph f) (filter (\<lambda>i. \<not> has_node (graph f) i) items0)
      \<longrightarrow> add f items0 = (f, Some DependencyFailure)) \<and>
   (built f \<longrightarrow> unique_providers (graph f) \<and> dependencies_linked (graph f))"
  using built_invariant [of f] add_raises_on_duplicate [of f items0]
  by (simp add: flow_invariant_def)

theorem add_duplicate_providers_and_dependency_edges_witness:
  "duplicate_producer (graph flow_ab)
     (filter (\<lambda>i. \<not> has_node (graph flow_ab) i) [task_c]) \<and>
   add flow_ab [task_c] = (flow_ab, Some DependencyFailure) \<and>
   built flow_ab \<and> unique_providers (graph flow_ab) \<and> dependencies_linked (graph flow_ab) \<and>
   has_edge (graph flow_ab) task_a task_b"
  using add_duplicate_providers_and_dependency_edges [of flow_ab "[task_c]"]
    flow_ab_built flow_ab_duplicate
  by (simp add: flow_ab_value has_edge_def)

lemma fold_union_set:
  "fold (\<lambda>x acc. acc \<union> set (h x)) xs A = A \<union> (\<Union>x \<in> set xs. set (h x))"
  by (induction xs arbitrary: A) auto

text \<open>
  Claim C10. The \<open>provides\<close> property of a graph flow is the union of the \<open>provides\<close> of
  its nodes, its \<open>requires\<close> property is the union of their \<open>requires\<close> without that
  union of \<open>provides\<close>; so the two are disjoint and no symbol produced inside the flow is
  reported as a requirement.
\<close>

theorem flow_requires_provides:
  "flow_provides f = (\<Union>n \<in> set (dnodes (graph f)). set (provides n)) \<and>
   flow_requires f = (\<Union>n \<in> set (dnodes (graph f)). set (requires n))
                     - (\<Union>n \<in> set (dnodes (graph f)). set (provides n)) \<and>
   flow_requires f \<inter> flow_provides f = {} \<and>
   (\<forall>n \<in> set (dnodes (graph f)). \<forall>s \<in> set (provides n). s \<notin> flow_requires f)"
  by (auto simp: flow_provides_def flow_requires_def fold_union_set)

theorem flow_requires_provides_witness:
  "task_a \<in> set (dnodes (graph flow_ab)) \<and> ''y'' \<in> set (provides task_a) \<and>
   ''y'' \<notin> flow_requires flow_ab \<and>
   flow_requires flow_ab = {''x''} \<and> flow_provides flow_ab = {''y'', ''z''}"
  using flow_requires_provides [of flow_ab]
  by (auto simp: flow_ab_value task_a_def task_b_def)

end
